theory Spec2Isabelle
  imports Main "HOL-Library.Word"
begin

unbundle bit_operations_syntax

section \<open>C values and the operations whose result the language leaves open\<close>

text \<open>
  The bit reader of \<^verbatim>\<open>codec/h264/h264dec/fuzz/helpers.c\<close> and the level-prefix parser of
  \<^verbatim>\<open>fuzzParseLevelPrefix/parse_level_prefix.c\<close> are C. Four points of the C language
  decide what the code computes, and each is written out in the model.

  \<^item> A shift whose result C leaves undefined (\<^verbatim>\<open>1 << n\<close> on \<^verbatim>\<open>int\<close> with a negative
    count, a count of 32 or more, or a result that does not fit \<^verbatim>\<open>int\<close>; \<^verbatim>\<open>>>\<close> on
    \<^verbatim>\<open>uint64_t\<close> with a count outside 0..63) is the outcome \<open>Undefined\<close>.
  \<^item> Plain \<^verbatim>\<open>char\<close> is signed or unsigned as the platform says (signed under the
    x86 and x86-64 ABIs, unsigned under the ARM ABIs). The conversion
    \<^verbatim>\<open>(uint64_t)b\<close> of a \<^verbatim>\<open>char\<close> sign-extends in the first case and zero-extends in
    the second; the model takes the platform's choice as the parameter \<open>char_sign\<close>.
  \<^item> \<^verbatim>\<open>leadingZeroBits\<close> is a C \<^verbatim>\<open>int\<close>: its increment at \<open>INT_MAX\<close> overflows, which C
    leaves undefined, and is the outcome \<open>Undefined\<close>. The counters \<^verbatim>\<open>curr\<close>,
    \<^verbatim>\<open>bits\<close> and \<^verbatim>\<open>nRead\<close> of the two structs are mathematical integers in the model;
    they stay within \<^verbatim>\<open>int\<close> as long as the buffer's length does and no call fails, and
    the statements that need it say so.
  \<^item> A read of \<^verbatim>\<open>data[curr]\<close> at \<open>curr \<ge> len\<close> is out of bounds: C leaves it undefined,
    and a checked build stops there. The model follows the run in which the read yields
    whatever byte lies beyond the buffer, and records the index, so that the runs that
    depend on such a read can be told apart from those that do not.
\<close>

datatype 'a outcome = Undefined | Returns 'a

fun map_outcome :: "('a \<Rightarrow> 'b) \<Rightarrow> 'a outcome \<Rightarrow> 'b outcome" where
  "map_outcome f Undefined = Undefined"
| "map_outcome f (Returns x) = Returns (f x)"

datatype char_sign = SignedChar | UnsignedChar

text \<open>\<^verbatim>\<open>(uint64_t)b\<close> for \<^verbatim>\<open>char b\<close>.\<close>

fun char_to_u64 :: "char_sign \<Rightarrow> 8 word \<Rightarrow> 64 word" where
  "char_to_u64 SignedChar b = scast b"
| "char_to_u64 UnsignedChar b = ucast b"

definition INT_MAX :: int where
  "INT_MAX = 2147483647"

text \<open>\<^verbatim>\<open>a << k\<close> on \<^verbatim>\<open>int\<close> (C11 6.5.7, paragraphs 3 and 4).\<close>

definition shl_int :: "int \<Rightarrow> int \<Rightarrow> int outcome" where
  "shl_int a k =
     (if 0 \<le> k \<and> k < 32 \<and> 0 \<le> a \<and> a * 2 ^ nat k \<le> INT_MAX
      then Returns (a * 2 ^ nat k) else Undefined)"

text \<open>\<^verbatim>\<open>i++\<close> on \<^verbatim>\<open>int\<close>.\<close>

definition inc_int :: "int \<Rightarrow> int outcome" where
  "inc_int i = (if i < INT_MAX then Returns (i + 1) else Undefined)"

text \<open>\<^verbatim>\<open>w >> k\<close> on \<^verbatim>\<open>uint64_t\<close> (C11 6.5.7, paragraphs 3 and 5).\<close>

definition shr_u64 :: "64 word \<Rightarrow> int \<Rightarrow> 64 word outcome" where
  "shr_u64 w k = (if 0 \<le> k \<and> k < 64 then Returns (drop_bit (nat k) w) else Undefined)"

text \<open>The conversion of an \<^verbatim>\<open>int\<close> operand to \<^verbatim>\<open>uint64_t\<close>, and of a
  \<^verbatim>\<open>uint64_t\<close> to \<^verbatim>\<open>int\<close> (reduction modulo \<open>2 ^ 32\<close>, read as two's complement).\<close>

definition int_to_u64 :: "int \<Rightarrow> 64 word" where
  "int_to_u64 i = word_of_int i"

definition u64_to_int :: "64 word \<Rightarrow> int" where
  "u64_to_int w = sint (ucast w :: 32 word)"

section \<open>The byte cursor and the bit reader (helpers.h, helpers.c)\<close>

text \<open>
  \<^verbatim>\<open>struct Reader\<close> and \<^verbatim>\<open>struct BitReader\<close>. The fields carry the prefix of their struct
  (\<open>r_\<close>, \<open>br_\<close>), since both structs have a field \<^verbatim>\<open>err\<close> and the short names
  \<^verbatim>\<open>n\<close> and \<^verbatim>\<open>r\<close> would capture the variables of every statement.

  \<^verbatim>\<open>char* data\<close> is a pointer: \<open>r_data r i\<close> is what the memory holds at \<^verbatim>\<open>data[i]\<close>,
  for indices inside the buffer and outside it. \<open>r_reads\<close> is not a field of the C
  struct: it records, newest first, every index at which \<^verbatim>\<open>next_byte\<close> has
  dereferenced \<^verbatim>\<open>data\<close>, so that memory safety can be stated.
\<close>

record Reader =
  r_data :: "int \<Rightarrow> 8 word"
  r_curr :: int
  r_len :: int
  r_err :: int
  r_reads :: "int list"

record BitReader =
  br_r :: Reader
  br_n :: "64 word"
  br_bits :: int
  br_nRead :: int
  br_err :: int

text \<open>\<^verbatim>\<open>new_BitReader\<close>, for the case that both allocations succeed.\<close>

definition new_BitReader :: "(int \<Rightarrow> 8 word) \<Rightarrow> int \<Rightarrow> BitReader" where
  "new_BitReader d l =
     \<lparr> br_r = \<lparr> r_data = d, r_curr = 0, r_len = l, r_err = 0, r_reads = [] \<rparr>,
       br_n = 0, br_bits = 0, br_nRead = 0, br_err = 0 \<rparr>"

text \<open>
  \<^verbatim>\<open>next_byte\<close>: the bound is tested and the flag set, but the read of
  \<^verbatim>\<open>data[curr]\<close> and the increment of \<^verbatim>\<open>curr\<close> follow in every case.
\<close>

definition next_byte :: "Reader \<Rightarrow> 8 word \<times> Reader" where
  "next_byte r =
     (let r1 = (if r_curr r \<ge> r_len r then r\<lparr>r_err := 1\<rparr> else r);
          next = r_data r1 (r_curr r1);
          r2 = r1\<lparr>r_reads := r_curr r1 # r_reads r1\<rparr>;
          r3 = r2\<lparr>r_curr := r_curr r2 + 1\<rparr>
      in (next, r3))"

text \<open>
  The \<^verbatim>\<open>while\<close> loop of \<^verbatim>\<open>read_bits\<close>. The result is \<open>False\<close> with the reader as
  it is at the early \<^verbatim>\<open>return 0\<close>, or \<open>True\<close> with the reader at the loop's exit.
\<close>

function read_bits_loop :: "char_sign \<Rightarrow> BitReader \<Rightarrow> int \<Rightarrow> bool \<times> BitReader" where
  "read_bits_loop cs br n =
     (if n > br_bits br then
        (let (b, r') = next_byte (br_r br);
             br1 = br\<lparr>br_r := r'\<rparr>
         in if r_err r' \<noteq> 0 then (False, br1\<lparr>br_err := 1\<rparr>)
            else
              (let br2 = br1\<lparr>br_nRead := br_nRead br1 + 1\<rparr>;
                   br3 = br2\<lparr>br_n := push_bit 8 (br_n br2)\<rparr>;
                   br4 = br3\<lparr>br_n := br_n br3 OR char_to_u64 cs b\<rparr>;
                   br5 = br4\<lparr>br_bits := br_bits br4 + 8\<rparr>
               in read_bits_loop cs br5 n))
      else (True, br))"
  by pat_completeness auto
termination
  by (relation "measure (\<lambda>(cs, br, n). nat (n - br_bits br))") auto

declare read_bits_loop.simps [simp del]

text \<open>
  \<^verbatim>\<open>read_bits\<close>. After the loop:
  \<^verbatim>\<open>r = (br->n >> (br->bits-n)) & ((1 << n) - 1); br->bits -= n; return r;\<close>
  where \<^verbatim>\<open>(1 << n) - 1\<close> is computed in \<^verbatim>\<open>int\<close> and then converted.
\<close>

definition read_bits :: "char_sign \<Rightarrow> BitReader \<Rightarrow> int \<Rightarrow> (64 word \<times> BitReader) outcome" where
  "read_bits cs br n =
     (case read_bits_loop cs br n of
        (False, br') \<Rightarrow> Returns (0, br')
      | (True, br') \<Rightarrow>
          (case shr_u64 (br_n br') (br_bits br' - n) of
             Undefined \<Rightarrow> Undefined
           | Returns hi \<Rightarrow>
               (case shl_int 1 n of
                  Undefined \<Rightarrow> Undefined
                | Returns p \<Rightarrow>
                    Returns (hi AND int_to_u64 (p - 1), br'\<lparr>br_bits := br_bits br' - n\<rparr>))))"

text \<open>A sequence of \<^verbatim>\<open>read_bits\<close> calls on one reader, with the values returned in order.\<close>

fun read_bits_seq :: "char_sign \<Rightarrow> BitReader \<Rightarrow> int list \<Rightarrow> (64 word list \<times> BitReader) outcome" where
  "read_bits_seq cs br [] = Returns ([], br)"
| "read_bits_seq cs br (n # ns) =
     (case read_bits cs br n of
        Undefined \<Rightarrow> Undefined
      | Returns (v, br') \<Rightarrow>
          (case read_bits_seq cs br' ns of
             Undefined \<Rightarrow> Undefined
           | Returns (vs, br'') \<Rightarrow> Returns (v # vs, br'')))"

text \<open>
  What a call of \<^verbatim>\<open>read_bits\<close> leaves in the reader: the loop, and \<^verbatim>\<open>br->bits -= n\<close>
  unless the call returned early. The returned value plays no part in it, and so neither
  does the mask \<^verbatim>\<open>(1 << n) - 1\<close>, the one step that C leaves undefined for the counts 31
  and 32. \<open>read_bits_readers\<close> is the reader after a sequence of calls.
\<close>

definition read_bits_reader :: "char_sign \<Rightarrow> BitReader \<Rightarrow> int \<Rightarrow> BitReader" where
  "read_bits_reader cs br n =
     (case read_bits_loop cs br n of
        (False, br') \<Rightarrow> br'
      | (True, br') \<Rightarrow> br'\<lparr>br_bits := br_bits br' - n\<rparr>)"

fun read_bits_readers :: "char_sign \<Rightarrow> BitReader \<Rightarrow> int list \<Rightarrow> BitReader" where
  "read_bits_readers cs br [] = br"
| "read_bits_readers cs br (n # ns) = read_bits_readers cs (read_bits_reader cs br n) ns"

text \<open>
  The counts that are at least 1 and leave room, in an \<^verbatim>\<open>int\<close>, for the loop's
  \<^verbatim>\<open>br->bits += 8\<close>, which runs only while \<open>bits < n\<close>.
\<close>

definition counts_fit :: "int list \<Rightarrow> bool" where
  "counts_fit ns = list_all (\<lambda>n. 1 \<le> n \<and> n + 7 \<le> INT_MAX) ns"

text \<open>A sequence of \<^verbatim>\<open>next_byte\<close> calls on one cursor.\<close>

fun next_bytes :: "nat \<Rightarrow> Reader \<Rightarrow> Reader" where
  "next_bytes 0 r = r"
| "next_bytes (Suc k) r = next_bytes k (snd (next_byte r))"

section \<open>Buffers\<close>

text \<open>
  A buffer of \<open>length xs\<close> bytes in memory: \<^verbatim>\<open>data[i]\<close> is \<open>xs ! i\<close> inside the buffer and
  whatever lies next to it, \<open>beyond i\<close>, outside. \<open>fresh\<close> is the reader that
  \<^verbatim>\<open>new_BitReader\<close> makes for the buffer and its length.
\<close>

definition mem_of :: "8 word list \<Rightarrow> (int \<Rightarrow> 8 word) \<Rightarrow> int \<Rightarrow> 8 word" where
  "mem_of xs beyond i = (if 0 \<le> i \<and> i < int (length xs) then xs ! nat i else beyond i)"

definition fresh :: "8 word list \<Rightarrow> (int \<Rightarrow> 8 word) \<Rightarrow> BitReader" where
  "fresh xs beyond = new_BitReader (mem_of xs beyond) (int (length xs))"

definition zeros_beyond :: "int \<Rightarrow> 8 word" where
  "zeros_beyond i = 0"

section \<open>The level-prefix parser (parse_level_prefix.c)\<close>

text \<open>
  \<^verbatim>\<open>for (b = 0; !b; leadingZeroBits++) { b = read_bits(br,1); if (br->err != 0) return -1; }\<close>
  The first test of \<^verbatim>\<open>!b\<close> is true by initialisation; every later turn is: the body, the
  increment, the test. \<open>levelprefix_loop\<close> is one such turn and the turns after it. The
  increment is that of a C \<^verbatim>\<open>int\<close>.
\<close>

function levelprefix_loop :: "char_sign \<Rightarrow> BitReader \<Rightarrow> int \<Rightarrow> (int \<times> BitReader) outcome" where
  "levelprefix_loop cs br leadingZeroBits =
     (case read_bits cs br 1 of
        Undefined \<Rightarrow> Undefined
      | Returns (v, br') \<Rightarrow>
          if br_err br' \<noteq> 0 then Returns (- 1, br')
          else
            (case inc_int leadingZeroBits of
               Undefined \<Rightarrow> Undefined
             | Returns leadingZeroBits' \<Rightarrow>
                 if u64_to_int v = 0 then levelprefix_loop cs br' leadingZeroBits'
                 else Returns (leadingZeroBits', br')))"
  by pat_completeness auto
termination
proof (relation "measure (\<lambda>(cs, br, lzb). nat (br_bits br) + 8 * nat (r_len (br_r br) - r_curr (br_r br)))")
  show "wf (measure (\<lambda>(cs, br, lzb). nat (br_bits br) + 8 * nat (r_len (br_r br) - r_curr (br_r br))))"
    by simp
next
  fix cs :: char_sign and br :: BitReader and leadingZeroBits leadingZeroBits' :: int and x2
    and v :: "64 word" and br' :: BitReader
  assume rb: "read_bits cs br 1 = Returns x2" and x: "(v, br') = x2"
    and ne: "\<not> br_err br' \<noteq> 0"
  txt \<open>What the loop of \<^verbatim>\<open>read_bits\<close> does to the counters, for a count of 1.\<close>
  have loop: "read_bits_loop cs b 1 = (ok, b1) \<longrightarrow>
      (if ok then r_len (br_r b1) = r_len (br_r b) \<and> r_curr (br_r b) \<le> r_curr (br_r b1) \<and>
            br_bits b1 = br_bits b + 8 * (r_curr (br_r b1) - r_curr (br_r b)) \<and>
            (r_curr (br_r b) < r_curr (br_r b1) \<longrightarrow> r_curr (br_r b1) \<le> r_len (br_r b)) \<and>
            1 \<le> br_bits b1
       else br_err b1 \<noteq> 0)" for b ok b1
  proof (induction "nat (1 - br_bits b)" arbitrary: b rule: less_induct)
    case less
    show ?case
    proof (cases "1 > br_bits b")
      case False
      then show ?thesis by (auto simp add: read_bits_loop.simps [of cs b 1])
    next
      case True
      let ?r = "snd (next_byte (br_r b))"
      show ?thesis
      proof (cases "r_err ?r = 0")
        case False
        with True show ?thesis
          by (auto simp add: read_bits_loop.simps [of cs b 1] split_beta)
      next
        case e: True
        let ?b5 = "b\<lparr>br_r := ?r, br_nRead := br_nRead b + 1,
                     br_n := push_bit 8 (br_n b) OR char_to_u64 cs (fst (next_byte (br_r b))),
                     br_bits := br_bits b + 8\<rparr>"
        have unf: "read_bits_loop cs b 1 = read_bits_loop cs ?b5 1"
          using True e by (simp add: read_bits_loop.simps [of cs b 1] split_beta Let_def)
        have "nat (1 - br_bits ?b5) < nat (1 - br_bits b)" using True by simp
        from less [OF this] e show ?thesis
          unfolding unf by (auto simp add: next_byte_def Let_def split: if_splits)
      qed
    qed
  qed
  obtain ok br1 where l: "read_bits_loop cs br 1 = (ok, br1)"
    by (cases "read_bits_loop cs br 1")
  have ok: ok
  proof (rule ccontr)
    assume n: "\<not> ok"
    with l rb x have "br' = br1" by (auto simp add: read_bits_def)
    with ne loop [of br ok br1] l n show False by simp
  qed
  have br': "br' = br1\<lparr>br_bits := br_bits br1 - 1\<rparr>"
    using rb x l ok by (auto simp add: read_bits_def split: outcome.splits)
  from loop [of br ok br1] l ok
  show "((cs, br', leadingZeroBits'), cs, br, leadingZeroBits)
        \<in> measure (\<lambda>(cs, br, lzb). nat (br_bits br) + 8 * nat (r_len (br_r br) - r_curr (br_r br)))"
    by (auto simp add: br')
qed

declare levelprefix_loop.simps [simp del]

definition read_levelprefix :: "char_sign \<Rightarrow> BitReader \<Rightarrow> (int \<times> BitReader) outcome" where
  "read_levelprefix cs br = levelprefix_loop cs br (- 1)"

text \<open>
  The same loop with a bound on the number of turns: each turn of the body spends one unit
  of \<open>fuel\<close>, and \<open>None\<close> says that the loop was still running when the fuel ran out.
\<close>

fun levelprefix_fuel ::
  "nat \<Rightarrow> char_sign \<Rightarrow> BitReader \<Rightarrow> int \<Rightarrow> (int \<times> BitReader) outcome option" where
  "levelprefix_fuel 0 cs br leadingZeroBits = None"
| "levelprefix_fuel (Suc fuel) cs br leadingZeroBits =
     (case read_bits cs br 1 of
        Undefined \<Rightarrow> Some Undefined
      | Returns (v, br') \<Rightarrow>
          if br_err br' \<noteq> 0 then Some (Returns (- 1, br'))
          else
            (case inc_int leadingZeroBits of
               Undefined \<Rightarrow> Some Undefined
             | Returns leadingZeroBits' \<Rightarrow>
                 if u64_to_int v = 0 then levelprefix_fuel fuel cs br' leadingZeroBits'
                 else Some (Returns (leadingZeroBits', br'))))"

section \<open>The buffer as a bit string\<close>

text \<open>
  The specification's reading of a buffer: its bytes one after the other, each most
  significant bit first, as one string of bits; and the index of the first 1-bit of such
  a string, if there is one.
\<close>

definition byte_bits :: "8 word \<Rightarrow> bool list" where
  "byte_bits b = map (\<lambda>i. bit b (7 - i)) [0..<8]"

definition bitstring :: "8 word list \<Rightarrow> bool list" where
  "bitstring xs = concat (map byte_bits xs)"

fun first_one :: "bool list \<Rightarrow> nat option" where
  "first_one [] = None"
| "first_one (b # bs) = (if b then Some 0 else map_option Suc (first_one bs))"

text \<open>The value of a string of bits, most significant bit first.\<close>

fun bits_value :: "bool list \<Rightarrow> nat" where
  "bits_value [] = 0"
| "bits_value (b # bs) = of_bool b * 2 ^ length bs + bits_value bs"

section \<open>Reader states named for the proofs\<close>

text \<open>
  One turn of the \<^verbatim>\<open>while\<close> loop of \<^verbatim>\<open>read_bits\<close> either leaves it (\<open>n \<le> bits\<close>),
  returns early with the reader \<open>failed br\<close>, or continues with the reader
  \<open>fetched cs br\<close> that holds one more byte. Both are the states the function body builds.
\<close>

definition fetched :: "char_sign \<Rightarrow> BitReader \<Rightarrow> BitReader" where
  "fetched cs br =
     br\<lparr>br_r := snd (next_byte (br_r br)), br_nRead := br_nRead br + 1,
        br_n := push_bit 8 (br_n br) OR char_to_u64 cs (fst (next_byte (br_r br))),
        br_bits := br_bits br + 8\<rparr>"

definition failed :: "BitReader \<Rightarrow> BitReader" where
  "failed br = br\<lparr>br_r := snd (next_byte (br_r br)), br_err := 1\<rparr>"

text \<open>
  The reader stands at bit \<open>p\<close> of the buffer \<open>xs\<close>: no flag is set, the bytes before
  position \<open>p\<close> (rounded up to a byte) have been fetched and no other index read, and the
  \<open>bits\<close> low bits of the
  accumulator are the bits \<open>p\<close>, \<open>p + 1\<close>, ... of the buffer that are left of the last
  byte fetched.
\<close>

definition at_bit :: "8 word list \<Rightarrow> (int \<Rightarrow> 8 word) \<Rightarrow> nat \<Rightarrow> BitReader \<Rightarrow> bool" where
  "at_bit xs beyond p br \<longleftrightarrow>
     r_data (br_r br) = mem_of xs beyond \<and> r_len (br_r br) = int (length xs) \<and>
     r_err (br_r br) = 0 \<and> br_err br = 0 \<and>
     0 \<le> br_bits br \<and> br_bits br < 8 \<and> int p + br_bits br = 8 * r_curr (br_r br) \<and>
     br_nRead br = r_curr (br_r br) \<and> r_curr (br_r br) \<le> int (length xs) \<and>
     r_reads (br_r br) = rev (map int [0..<nat (r_curr (br_r br))]) \<and>
     (\<forall>i < nat (br_bits br). bit (br_n br) i = bitstring xs ! (p + nat (br_bits br) - 1 - i))"

text \<open>
  The reader stands at bit \<open>p\<close>, with any number of whole bytes fetched ahead: all
  \<open>bits\<close> low bits of the accumulator are bits of the buffer.
\<close>

definition at_pos :: "8 word list \<Rightarrow> (int \<Rightarrow> 8 word) \<Rightarrow> nat \<Rightarrow> BitReader \<Rightarrow> bool" where
  "at_pos xs beyond p br \<longleftrightarrow>
     r_data (br_r br) = mem_of xs beyond \<and> r_len (br_r br) = int (length xs) \<and>
     r_err (br_r br) = 0 \<and> br_err br = 0 \<and>
     0 \<le> br_bits br \<and> br_bits br \<le> 63 \<and> int p + br_bits br = 8 * r_curr (br_r br) \<and>
     br_nRead br = r_curr (br_r br) \<and> r_curr (br_r br) \<le> int (length xs) \<and>
     (\<forall>i < nat (br_bits br). bit (br_n br) i = bitstring xs ! (p + nat (br_bits br) - 1 - i))"

text \<open>
  The bit counts of a sequence of \<^verbatim>\<open>read_bits\<close> calls for which C defines every result
  (1 to 30), and what holds of every reader that such calls reach from a new one.
\<close>

definition valid_counts :: "int list \<Rightarrow> bool" where
  "valid_counts ns = list_all (\<lambda>n. 1 \<le> n \<and> n \<le> 30) ns"

definition reader_inv :: "BitReader \<Rightarrow> bool" where
  "reader_inv br \<longleftrightarrow>
     0 \<le> br_bits br \<and> br_bits br \<le> 37 \<and>
     (br_err br \<noteq> 0 \<longrightarrow> r_err (br_r br) \<noteq> 0) \<and>
     (br_err br = 0 \<longrightarrow> br_bits br \<le> 7)"

text \<open>
  Two readers that differ at most in the memory outside \<open>0..len-1\<close>, and
  what a caller can observe of a reader: the fields of \<^verbatim>\<open>struct BitReader\<close> other than the
  cursor.
\<close>

definition same_reader :: "BitReader \<Rightarrow> BitReader \<Rightarrow> bool" where
  "same_reader a b \<longleftrightarrow>
     br_n a = br_n b \<and> br_bits a = br_bits b \<and> br_nRead a = br_nRead b \<and> br_err a = br_err b \<and>
     r_curr (br_r a) = r_curr (br_r b) \<and> r_len (br_r a) = r_len (br_r b) \<and>
     r_err (br_r a) = r_err (br_r b) \<and> r_reads (br_r a) = r_reads (br_r b) \<and>
     0 \<le> r_curr (br_r a) \<and>
     (\<forall>i. 0 \<le> i \<and> i < r_len (br_r a) \<longrightarrow> r_data (br_r a) i = r_data (br_r b) i)"

definition observable :: "BitReader \<Rightarrow> int \<times> 64 word \<times> int \<times> int" where
  "observable br = (br_err br, br_n br, br_bits br, br_nRead br)"

section \<open>Unfolding the loop of \<^verbatim>\<open>read_bits\<close>\<close>

lemma next_byte_fields:
  "r_len (snd (next_byte r)) = r_len r"
  "r_data (snd (next_byte r)) = r_data r"
  "r_curr (snd (next_byte r)) = r_curr r + 1"
  "r_reads (snd (next_byte r)) = r_curr r # r_reads r"
  "r_err (snd (next_byte r)) = (if r_len r \<le> r_curr r then 1 else r_err r)"
  "fst (next_byte r) = r_data r (r_curr r)"
  by (simp_all add: next_byte_def Let_def)

lemma read_bits_loop_exit: "n \<le> br_bits br \<Longrightarrow> read_bits_loop cs br n = (True, br)"
  by (simp add: read_bits_loop.simps [of cs br n])

lemma read_bits_loop_fail:
  "br_bits br < n \<Longrightarrow> r_err (snd (next_byte (br_r br))) \<noteq> 0 \<Longrightarrow>
   read_bits_loop cs br n = (False, failed br)"
  by (simp add: read_bits_loop.simps [of cs br n] failed_def split_beta)

lemma read_bits_loop_fetch:
  "br_bits br < n \<Longrightarrow> r_err (snd (next_byte (br_r br))) = 0 \<Longrightarrow>
   read_bits_loop cs br n = read_bits_loop cs (fetched cs br) n"
  by (simp add: read_bits_loop.simps [of cs br n] fetched_def split_beta Let_def)

lemma read_bits_loop_induct [case_names step]:
  assumes step: "\<And>br. (br_bits br < n \<Longrightarrow> r_err (snd (next_byte (br_r br))) = 0 \<Longrightarrow> P (fetched cs br)) \<Longrightarrow> P br"
  shows "P br"
proof (induction "nat (n - br_bits br)" arbitrary: br rule: less_induct)
  case less
  show ?case
  proof (rule step)
    assume lt: "br_bits br < n"
    show "P (fetched cs br)"
      by (rule less) (use lt in \<open>simp add: fetched_def\<close>)
  qed
qed

lemma fetched_fields:
  "br_r (fetched cs br) = snd (next_byte (br_r br))"
  "br_bits (fetched cs br) = br_bits br + 8"
  "br_nRead (fetched cs br) = br_nRead br + 1"
  "br_err (fetched cs br) = br_err br"
  "br_n (fetched cs br) = push_bit 8 (br_n br) OR char_to_u64 cs (fst (next_byte (br_r br)))"
  by (simp_all add: fetched_def)

lemma failed_fields:
  "br_r (failed br) = snd (next_byte (br_r br))"
  "br_bits (failed br) = br_bits br"
  "br_nRead (failed br) = br_nRead br"
  "br_err (failed br) = 1"
  "br_n (failed br) = br_n br"
  by (simp_all add: failed_def)

lemma read_bits_loop_True:
  "read_bits_loop cs br n = (True, br1) \<Longrightarrow>
     r_len (br_r br1) = r_len (br_r br) \<and>
     r_curr (br_r br) \<le> r_curr (br_r br1) \<and>
     br_bits br1 = br_bits br + 8 * (r_curr (br_r br1) - r_curr (br_r br)) \<and>
     (r_curr (br_r br) < r_curr (br_r br1) \<longrightarrow> r_curr (br_r br1) \<le> r_len (br_r br)) \<and>
     n \<le> br_bits br1 \<and> br_err br1 = br_err br"
proof (induction br rule: read_bits_loop_induct [where n = n and cs = cs])
  case (step br)
  show ?case
  proof (cases "br_bits br < n")
    case False
    with step.prems show ?thesis by (simp add: read_bits_loop_exit)
  next
    case lt: True
    show ?thesis
    proof (cases "r_err (snd (next_byte (br_r br))) = 0")
      case False
      with lt step.prems show ?thesis by (simp add: read_bits_loop_fail)
    next
      case e: True
      have "read_bits_loop cs (fetched cs br) n = (True, br1)"
        using step.prems by (simp add: read_bits_loop_fetch [OF lt e])
      from step.IH [OF lt e this] e show ?thesis
        by (auto simp add: fetched_fields next_byte_fields split: if_splits)
    qed
  qed
qed

lemma read_bits_loop_False:
  "read_bits_loop cs br n = (False, br1) \<Longrightarrow>
     br_err br1 = 1 \<and> r_err (br_r br1) \<noteq> 0 \<and> r_len (br_r br1) = r_len (br_r br)"
proof (induction br rule: read_bits_loop_induct [where n = n and cs = cs])
  case (step br)
  show ?case
  proof (cases "br_bits br < n")
    case False
    with step.prems show ?thesis by (simp add: read_bits_loop_exit)
  next
    case lt: True
    show ?thesis
    proof (cases "r_err (snd (next_byte (br_r br))) = 0")
      case False
      with lt step.prems show ?thesis
        by (auto simp add: read_bits_loop_fail failed_fields next_byte_fields)
    next
      case e: True
      have "read_bits_loop cs (fetched cs br) n = (False, br1)"
        using step.prems by (simp add: read_bits_loop_fetch [OF lt e])
      from step.IH [OF lt e this] show ?thesis
        by (simp add: fetched_fields next_byte_fields)
    qed
  qed
qed

section \<open>One call of \<^verbatim>\<open>read_bits\<close>\<close>

lemma int_to_u64_mask: "int_to_u64 (2 ^ k - 1) = mask k"
  by (simp add: int_to_u64_def mask_eq_exp_minus_1)

lemma shl_int_1: "0 \<le> n \<Longrightarrow> n \<le> 30 \<Longrightarrow> shl_int 1 n = Returns (2 ^ nat n)"
proof -
  assume a: "0 \<le> n" "n \<le> 30"
  then have "nat n \<le> 30" by simp
  then have "(2::int) ^ nat n \<le> 2 ^ 30" by (rule power_increasing) simp
  then show ?thesis using a by (simp add: shl_int_def INT_MAX_def)
qed

lemma read_bits_exit:
  assumes "read_bits_loop cs br n = (True, br1)" "0 \<le> n" "n \<le> 30" "br_bits br1 - n < 64"
  shows "read_bits cs br n =
    Returns (drop_bit (nat (br_bits br1 - n)) (br_n br1) AND mask (nat n),
             br1\<lparr>br_bits := br_bits br1 - n\<rparr>)"
proof -
  have "n \<le> br_bits br1" using read_bits_loop_True [OF assms(1)] by simp
  then show ?thesis
    using assms by (simp add: read_bits_def shr_u64_def shl_int_1 int_to_u64_mask)
qed

lemma read_bits_early:
  "read_bits_loop cs br n = (False, br1) \<Longrightarrow> read_bits cs br n = Returns (0, br1)"
  by (simp add: read_bits_def)

lemma low_bit: "drop_bit k w AND mask (Suc 0) = (of_bool (bit w k) :: 64 word)"
  by (rule bit_word_eqI) (auto simp add: bit_simps bit_of_bool_iff)

lemma u64_to_int_of_bool: "u64_to_int (of_bool b) = of_bool b"
  by (cases b) (simp_all add: u64_to_int_def)

lemma bit_char_to_u64: "i < 8 \<Longrightarrow> bit (char_to_u64 cs b) i = bit b i"
  by (cases cs) (simp_all add: bit_simps)

lemma bit_shift_in: "i < 8 \<Longrightarrow> bit (push_bit 8 a OR char_to_u64 cs b) i = bit b i"
  by (simp add: bit_simps bit_char_to_u64)

section \<open>Indexing the bit string\<close>

lemma length_byte_bits: "length (byte_bits b) = 8"
  by (simp add: byte_bits_def)

lemma length_bitstring: "length (bitstring xs) = 8 * length xs"
  by (induction xs) (simp_all add: bitstring_def length_byte_bits)

lemma nth_byte_bits: "j < 8 \<Longrightarrow> byte_bits b ! j = bit b (7 - j)"
  unfolding byte_bits_def by (subst nth_map) simp_all

lemma nth_bitstring:
  "j < 8 * length xs \<Longrightarrow> bitstring xs ! j = bit (xs ! (j div 8)) (7 - j mod 8)"
proof (induction xs arbitrary: j)
  case Nil
  then show ?case by simp
next
  case (Cons x xs)
  have unf: "bitstring (x # xs) = byte_bits x @ bitstring xs" by (simp add: bitstring_def)
  show ?case
  proof (cases "j < 8")
    case True
    then show ?thesis by (simp add: unf nth_append length_byte_bits nth_byte_bits)
  next
    case False
    then have ge: "8 \<le> j" by simp
    have d: "j div 8 = Suc ((j - 8) div 8)" using ge by (simp add: le_div_geq)
    have m: "j mod 8 = (j - 8) mod 8" using ge by (simp add: le_mod_geq)
    have "j - 8 < 8 * length xs" using Cons.prems False by simp
    from Cons.IH [OF this] False show ?thesis
      by (simp add: unf nth_append length_byte_bits d m)
  qed
qed

section \<open>Reading bit by bit\<close>

lemma at_bit_fresh: "at_bit xs beyond 0 (fresh xs beyond)"
  by (simp add: at_bit_def fresh_def new_BitReader_def)

lemma low_bit1: "drop_bit k w AND 1 = (of_bool (bit w k) :: 64 word)"
  using low_bit [of k w] by simp

lemma read_bits_exit_1:
  assumes "read_bits_loop cs br 1 = (True, br1)" "br_bits br1 - 1 < 64"
  shows "read_bits cs br 1 =
    Returns (of_bool (bit (br_n br1) (nat (br_bits br1 - 1))), br1\<lparr>br_bits := br_bits br1 - 1\<rparr>)"
  using read_bits_exit [OF assms(1) _ _ assms(2)] by (simp add: low_bit1)

lemma read_bit_buffered:
  assumes inv: "at_bit xs beyond p br" and pos: "0 < br_bits br"
  shows "read_bits cs br 1 =
           Returns (of_bool (bitstring xs ! p), br\<lparr>br_bits := br_bits br - 1\<rparr>)"
    and "at_bit xs beyond (Suc p) (br\<lparr>br_bits := br_bits br - 1\<rparr>)"
proof -
  have l: "read_bits_loop cs br 1 = (True, br)" using pos by (simp add: read_bits_loop_exit)
  have b: "bit (br_n br) (nat (br_bits br - 1)) = bitstring xs ! p"
  proof -
    have "nat (br_bits br - 1) < nat (br_bits br)" using pos by simp
    with inv have "bit (br_n br) (nat (br_bits br - 1))
        = bitstring xs ! (p + nat (br_bits br) - 1 - nat (br_bits br - 1))"
      unfolding at_bit_def by blast
    moreover have "p + nat (br_bits br) - 1 - nat (br_bits br - 1) = p" using pos by simp
    ultimately show ?thesis by simp
  qed
  have "br_bits br - 1 < 64" using inv by (simp add: at_bit_def)
  from read_bits_exit_1 [OF l this] b
  show "read_bits cs br 1 = Returns (of_bool (bitstring xs ! p), br\<lparr>br_bits := br_bits br - 1\<rparr>)"
    by simp
  show "at_bit xs beyond (Suc p) (br\<lparr>br_bits := br_bits br - 1\<rparr>)"
    using inv pos unfolding at_bit_def
    by (auto simp add: nat_diff_distrib intro: arg_cong [where f = "\<lambda>k. bitstring xs ! k"])
qed

lemma nth_bitstring_at:
  assumes "c < length xs" "k < 8"
  shows "bitstring xs ! (c * 8 + k) = bit (xs ! c) (7 - k)"
proof -
  have "c * 8 + k < 8 * length xs" using assms by simp
  from nth_bitstring [OF this] show ?thesis using assms by simp
qed

lemma nth_bitstring_byte:
  assumes "c < length xs" "i < 8"
  shows "bitstring xs ! (8 * c + 7 - i) = bit (xs ! c) i"
proof -
  have e: "8 * c + 7 - i = c * 8 + (7 - i)" using assms by simp
  have "7 - i < 8" by simp
  from nth_bitstring_at [OF assms(1) this] show ?thesis
    unfolding e using assms by simp
qed

lemma read_bit_fetch:
  assumes inv: "at_bit xs beyond p br" and z: "br_bits br = 0" and lt: "p < 8 * length xs"
  shows "read_bits cs br 1 =
           Returns (of_bool (bitstring xs ! p), (fetched cs br)\<lparr>br_bits := 7\<rparr>)"
    and "at_bit xs beyond (Suc p) ((fetched cs br)\<lparr>br_bits := 7\<rparr>)"
proof -
  define c where "c = nat (r_curr (br_r br))"
  have p: "p = 8 * c" and cur: "r_curr (br_r br) = int c" and c: "c < length xs"
    using inv z lt by (auto simp add: at_bit_def c_def)
  have ne: "r_err (snd (next_byte (br_r br))) = 0"
    using inv c cur by (simp add: next_byte_fields at_bit_def)
  have byte: "fst (next_byte (br_r br)) = xs ! c"
    using inv c cur by (simp add: next_byte_fields at_bit_def mem_of_def)
  have l: "read_bits_loop cs br 1 = (True, fetched cs br)"
    using z ne by (simp add: read_bits_loop_fetch read_bits_loop_exit fetched_fields)
  have bits: "\<And>i. i < 8 \<Longrightarrow> bit (br_n (fetched cs br)) i = bitstring xs ! (8 * c + 7 - i)"
    using c by (simp add: fetched_fields bit_shift_in byte nth_bitstring_byte)
  have "br_bits (fetched cs br) - 1 < 64" using z by (simp add: fetched_fields)
  from read_bits_exit_1 [OF l this] bits [of 7]
  show "read_bits cs br 1 = Returns (of_bool (bitstring xs ! p), (fetched cs br)\<lparr>br_bits := 7\<rparr>)"
    using z by (simp add: fetched_fields p)
  have n1: "nat (1 + int c) = Suc c" by simp
  show "at_bit xs beyond (Suc p) ((fetched cs br)\<lparr>br_bits := 7\<rparr>)"
    using inv z c ne bits unfolding at_bit_def
    by (simp add: fetched_fields next_byte_fields p cur ac_simps n1)
qed

lemma read_bit_exhausted:
  assumes inv: "at_bit xs beyond p br" and e: "p = 8 * length xs"
  shows "read_bits cs br 1 = Returns (0, failed br)"
    and "br_nRead (failed br) = int (length xs)"
proof -
  have z: "br_bits br = 0" and cur: "r_curr (br_r br) = int (length xs)"
    using inv e by (auto simp add: at_bit_def)
  have ne: "r_err (snd (next_byte (br_r br))) \<noteq> 0"
    using inv cur by (simp add: next_byte_fields at_bit_def)
  have "read_bits_loop cs br 1 = (False, failed br)"
    using z ne by (simp add: read_bits_loop_fail)
  then show "read_bits cs br 1 = Returns (0, failed br)" by (rule read_bits_early)
  show "br_nRead (failed br) = int (length xs)"
    using inv cur by (simp add: failed_fields at_bit_def)
qed

text \<open>One single-bit read at a position inside the buffer.\<close>

lemma read_bit_step:
  assumes inv: "at_bit xs beyond p br" and lt: "p < 8 * length xs"
  shows "\<exists>br'. read_bits cs br 1 = Returns (of_bool (bitstring xs ! p), br') \<and>
               at_bit xs beyond (Suc p) br'"
proof (cases "br_bits br = 0")
  case True
  from read_bit_fetch [OF inv True lt] show ?thesis by blast
next
  case False
  with inv have "0 < br_bits br" by (simp add: at_bit_def)
  from read_bit_buffered [OF inv this] show ?thesis by blast
qed

section \<open>The level-prefix loop along the bit string\<close>

lemma levelprefix_loop_fail:
  "read_bits cs br 1 = Returns (v, br') \<Longrightarrow> br_err br' \<noteq> 0 \<Longrightarrow>
   levelprefix_loop cs br lzb = Returns (- 1, br')"
  by (simp add: levelprefix_loop.simps [of cs br lzb])

lemma levelprefix_loop_one:
  "read_bits cs br 1 = Returns (of_bool True, br') \<Longrightarrow> br_err br' = 0 \<Longrightarrow> lzb < INT_MAX \<Longrightarrow>
   levelprefix_loop cs br lzb = Returns (lzb + 1, br')"
  by (simp add: levelprefix_loop.simps [of cs br lzb] u64_to_int_def inc_int_def)

lemma levelprefix_loop_zero:
  "read_bits cs br 1 = Returns (of_bool False, br') \<Longrightarrow> br_err br' = 0 \<Longrightarrow> lzb < INT_MAX \<Longrightarrow>
   levelprefix_loop cs br lzb = levelprefix_loop cs br' (lzb + 1)"
  by (simp add: levelprefix_loop.simps [of cs br lzb] u64_to_int_def inc_int_def)

lemma levelprefix_loop_overflow:
  "read_bits cs br 1 = Returns (v, br') \<Longrightarrow> br_err br' = 0 \<Longrightarrow> \<not> lzb < INT_MAX \<Longrightarrow>
   levelprefix_loop cs br lzb = Undefined"
  by (simp add: levelprefix_loop.simps [of cs br lzb] inc_int_def)

lemma first_one_Some:
  "first_one bs = Some k \<Longrightarrow> k < length bs \<and> bs ! k \<and> (\<forall>j<k. \<not> bs ! j)"
proof (induction bs arbitrary: k)
  case Nil
  then show ?case by simp
next
  case (Cons b bs)
  show ?case
  proof (cases b)
    case True
    with Cons.prems show ?thesis by simp
  next
    case False
    with Cons.prems obtain k' where k: "first_one bs = Some k'" "k = Suc k'" by auto
    from Cons.IH [OF k(1)] False k(2) show ?thesis
      by (auto simp add: nth_Cons split: nat.splits)
  qed
qed

lemma levelprefix_loop_found:
  assumes "at_bit xs beyond p br" "p \<le> k" "k < 8 * length xs" "bitstring xs ! k"
    "\<And>j. p \<le> j \<Longrightarrow> j < k \<Longrightarrow> \<not> bitstring xs ! j"
    "lzb + int (k - p) < INT_MAX"
  shows "\<exists>br'. levelprefix_loop cs br lzb = Returns (lzb + int (k - p) + 1, br') \<and>
               at_bit xs beyond (Suc k) br'"
  using assms
proof (induction "k - p" arbitrary: p br lzb)
  case 0
  then have pk: "p = k" by simp
  from read_bit_step [OF "0.prems"(1), of cs] "0.prems" pk
  obtain br' where r: "read_bits cs br 1 = Returns (of_bool True, br')"
    and inv: "at_bit xs beyond (Suc k) br'" by auto
  have e: "br_err br' = 0" using inv by (simp add: at_bit_def)
  have m: "lzb < INT_MAX" using "0.prems"(6) by simp
  from levelprefix_loop_one [OF r e m] inv pk show ?case by simp
next
  case (Suc d)
  then have lt: "p < k" by simp
  then have "p < 8 * length xs" using Suc.prems by simp
  from read_bit_step [OF Suc.prems(1) this, of cs] Suc.prems(5) [of p] lt
  obtain br' where r: "read_bits cs br 1 = Returns (of_bool False, br')"
    and inv: "at_bit xs beyond (Suc p) br'" by auto
  have e: "br_err br' = 0" using inv by (simp add: at_bit_def)
  have m: "lzb < INT_MAX" using Suc.prems(6) by simp
  have d: "d = k - Suc p" using Suc.hyps(2) by simp
  have "\<exists>br''. levelprefix_loop cs br' (lzb + 1) = Returns (lzb + 1 + int (k - Suc p) + 1, br'') \<and>
               at_bit xs beyond (Suc k) br''"
    by (rule Suc.hyps(1) [OF d inv]) (use lt Suc.prems in simp_all)
  moreover have "lzb + 1 + int (k - Suc p) + 1 = lzb + int (k - p) + 1" using lt by simp
  ultimately show ?case by (simp add: levelprefix_loop_zero [OF r e m])
qed

lemma levelprefix_fuel_enough:
  assumes "at_bit xs beyond p br" "p \<le> 8 * length xs" "8 * length xs - p < fuel"
  shows "levelprefix_fuel fuel cs br lzb = Some (levelprefix_loop cs br lzb)"
  using assms
proof (induction fuel arbitrary: p br lzb)
  case 0
  then show ?case by simp
next
  case (Suc fuel)
  show ?case
  proof (cases "p = 8 * length xs")
    case True
    note r = read_bit_exhausted(1) [OF Suc.prems(1) True, where cs = cs]
    have ne: "br_err (failed br) \<noteq> 0" by (simp add: failed_fields)
    show ?thesis
      using r(1) ne by (simp add: levelprefix_loop_fail [OF r(1) ne])
  next
    case False
    then have lt: "p < 8 * length xs" using Suc.prems by simp
    from read_bit_step [OF Suc.prems(1) lt, of cs]
    obtain br' where r: "read_bits cs br 1 = Returns (of_bool (bitstring xs ! p), br')"
      and inv: "at_bit xs beyond (Suc p) br'" by auto
    have e: "br_err br' = 0" using inv by (simp add: at_bit_def)
    show ?thesis
    proof (cases "lzb < INT_MAX")
      case False
      then show ?thesis using r e
        by (simp add: levelprefix_loop_overflow [OF r e False] inc_int_def)
    next
      case m: True
      show ?thesis
      proof (cases "bitstring xs ! p")
        case True
        with r have r1: "read_bits cs br 1 = Returns (of_bool True, br')" by simp
        show ?thesis using r1 e m
          by (simp add: levelprefix_loop_one [OF r1 e m] u64_to_int_def inc_int_def)
      next
        case False
        with r have r0: "read_bits cs br 1 = Returns (of_bool False, br')" by simp
        have "levelprefix_fuel fuel cs br' (lzb + 1) = Some (levelprefix_loop cs br' (lzb + 1))"
          by (rule Suc.IH [OF inv]) (use lt Suc.prems in simp_all)
        then show ?thesis using r0 e m
          by (simp add: levelprefix_loop_zero [OF r0 e m] u64_to_int_def inc_int_def)
      qed
    qed
  qed
qed

section \<open>The level prefix of a buffer\<close>

text \<open>
  C1. If the first 1-bit of the buffer, read as one bit string most significant bit
  first, is at index \<open>k\<close> (so the buffer has at least \<open>k + 1\<close> bits), then
  \<^verbatim>\<open>read_levelprefix\<close> on a fresh reader over the buffer returns exactly \<open>k\<close>, with the
  reader's error flag clear. For \<open>k = 0\<close>: a buffer whose very first bit is 1 gives 0. This
  holds whether plain \<^verbatim>\<open>char\<close> is signed or not, and whatever lies beyond the buffer: no
  byte beyond bit \<open>k\<close> is read. The buffer's length is one that \<^verbatim>\<open>int len\<close> holds, and
  \<open>k\<close> one that \<^verbatim>\<open>int leadingZeroBits\<close> holds: beyond \<open>INT_MAX\<close> the count overflows.
\<close>

theorem read_levelprefix_first_one:
  assumes "first_one (bitstring xs) = Some k"
    and "int (length xs) \<le> INT_MAX" and "int k \<le> INT_MAX"
  shows "map_outcome (\<lambda>(v, br). (v, br_err br, r_reads (br_r br)))
           (read_levelprefix cs (fresh xs beyond))
           = Returns (int k, 0, rev (map int [0..<Suc (k div 8)]))"
proof -
  note f = first_one_Some [OF assms(1)]
  have k: "k < 8 * length xs" using f by (simp add: length_bitstring)
  have "\<exists>br'. levelprefix_loop cs (fresh xs beyond) (- 1) = Returns (- 1 + int (k - 0) + 1, br') \<and>
               at_bit xs beyond (Suc k) br'"
    by (rule levelprefix_loop_found [OF at_bit_fresh _ k]) (use f assms(3) in simp_all)
  then obtain br' where r: "levelprefix_loop cs (fresh xs beyond) (- 1) = Returns (int k, br')"
    and inv: "at_bit xs beyond (Suc k) br'" by auto
  have c: "int (Suc k) + br_bits br' = 8 * r_curr (br_r br')" "0 \<le> br_bits br'" "br_bits br' < 8"
    using inv by (simp_all add: at_bit_def)
  have "r_curr (br_r br') = int (Suc (k div 8))" using c by linarith
  then have "nat (r_curr (br_r br')) = Suc (k div 8)" by simp
  then have "r_reads (br_r br') = rev (map int [0..<Suc (k div 8)])"
    using inv unfolding at_bit_def by metis
  moreover have "br_err br' = 0" using inv by (simp add: at_bit_def)
  ultimately show ?thesis using r by (simp add: read_levelprefix_def)
qed

theorem read_levelprefix_first_one_witness:
  "first_one (bitstring [0, 128]) = Some 8 \<and>
   int (length [0 :: 8 word, 128]) \<le> INT_MAX \<and> int 8 \<le> INT_MAX \<and>
   map_outcome (\<lambda>(v, br). (v, br_err br, r_reads (br_r br)))
     (read_levelprefix SignedChar (fresh [0, 128] zeros_beyond)) = Returns (8, 0, [1, 0])"
proof -
  have h: "first_one (bitstring [0, 128]) = Some 8"
    by (simp add: bitstring_def byte_bits_def upt_conv_Cons)
  have l: "int (length [0 :: 8 word, 128]) \<le> INT_MAX" and k: "int 8 \<le> INT_MAX"
    by (simp_all add: INT_MAX_def)
  from read_levelprefix_first_one [OF h l k, of SignedChar zeros_beyond] h l k
  show ?thesis by (simp add: upt_conv_Cons)
qed

text \<open>
  C9. \<^verbatim>\<open>read_levelprefix\<close> terminates on every finite buffer, after at most
  \<open>8 * len + 1\<close> turns of its loop: run with that many turns allowed, the loop has
  returned, and with the result of the unbounded loop (whose definition carries its own
  termination proof for every reader state).
\<close>

theorem read_levelprefix_terminates:
  "levelprefix_fuel (8 * length xs + 1) cs (fresh xs beyond) (- 1)
     = Some (read_levelprefix cs (fresh xs beyond))"
  unfolding read_levelprefix_def
  by (rule levelprefix_fuel_enough [OF at_bit_fresh]) simp_all

section \<open>Sequences of \<^verbatim>\<open>read_bits\<close> calls\<close>

text \<open>
  The bit counts for which C defines the result of \<^verbatim>\<open>read_bits\<close>: from 1 to 30. For 31
  and 32 the mask \<^verbatim>\<open>(1 << n) - 1\<close> is computed in a 32-bit \<^verbatim>\<open>int\<close> and overflows it.
  \<open>reader_inv\<close> holds of every reader that such calls reach from a new one.
\<close>

lemma read_bits_loop_True_count:
  "read_bits_loop cs br n = (True, br1) \<Longrightarrow>
     br_nRead br1 - br_nRead br = r_curr (br_r br1) - r_curr (br_r br) \<and>
     (br_bits br1 = br_bits br \<or> br_bits br1 < n + 8) \<and>
     (br1 = br \<or> r_err (br_r br1) = 0)"
proof (induction br rule: read_bits_loop_induct [where n = n and cs = cs])
  case (step br)
  show ?case
  proof (cases "br_bits br < n")
    case False
    with step.prems show ?thesis by (simp add: read_bits_loop_exit)
  next
    case lt: True
    show ?thesis
    proof (cases "r_err (snd (next_byte (br_r br))) = 0")
      case False
      with lt step.prems show ?thesis by (simp add: read_bits_loop_fail)
    next
      case e: True
      have "read_bits_loop cs (fetched cs br) n = (True, br1)"
        using step.prems by (simp add: read_bits_loop_fetch [OF lt e])
      from step.IH [OF lt e this] e lt show ?thesis
        by (auto simp add: fetched_fields next_byte_fields split: if_splits)
    qed
  qed
qed

lemma read_bits_loop_False_bits:
  "read_bits_loop cs br n = (False, br1) \<Longrightarrow> br_bits br \<le> br_bits br1 \<and> br_bits br1 < n"
proof (induction br rule: read_bits_loop_induct [where n = n and cs = cs])
  case (step br)
  show ?case
  proof (cases "br_bits br < n")
    case False
    with step.prems show ?thesis by (simp add: read_bits_loop_exit)
  next
    case lt: True
    show ?thesis
    proof (cases "r_err (snd (next_byte (br_r br))) = 0")
      case False
      with lt step.prems show ?thesis by (auto simp add: read_bits_loop_fail failed_fields)
    next
      case e: True
      have "read_bits_loop cs (fetched cs br) n = (False, br1)"
        using step.prems by (simp add: read_bits_loop_fetch [OF lt e])
      from step.IH [OF lt e this] show ?thesis by (simp add: fetched_fields)
    qed
  qed
qed

text \<open>Once the cursor's flag is set, the loop fetches nothing more.\<close>

lemma read_bits_loop_after_error:
  "r_err (br_r br) \<noteq> 0 \<Longrightarrow>
   read_bits_loop cs br n = (if n \<le> br_bits br then (True, br) else (False, failed br))"
  by (simp add: read_bits_loop_exit read_bits_loop_fail next_byte_fields)

lemma reader_inv_new: "reader_inv (new_BitReader d l)"
  by (simp add: reader_inv_def new_BitReader_def)

lemma read_bits_step:
  assumes inv: "reader_inv br" and n: "0 \<le> n" "n \<le> 30"
  shows "\<exists>v br'. read_bits cs br n = Returns (v, br') \<and> reader_inv br' \<and>
           (br_err br' = 0 \<longrightarrow> br_err br = 0 \<and>
              8 * br_nRead br' - br_bits br' = 8 * br_nRead br - br_bits br + n)"
proof -
  obtain ok br1 where l: "read_bits_loop cs br n = (ok, br1)"
    by (cases "read_bits_loop cs br n")
  show ?thesis
  proof (cases ok)
    case False
    with l have l': "read_bits_loop cs br n = (False, br1)" by simp
    from read_bits_loop_False [OF l'] read_bits_loop_False_bits [OF l'] inv n
    have "reader_inv br1" "br_err br1 \<noteq> 0" by (simp_all add: reader_inv_def)
    then show ?thesis using read_bits_early [OF l'] by simp
  next
    case True
    with l have l': "read_bits_loop cs br n = (True, br1)" by simp
    note t = read_bits_loop_True [OF l'] read_bits_loop_True_count [OF l']
    have b: "br_bits br1 - n < 64" using t inv n by (auto simp add: reader_inv_def)
    let ?br' = "br1\<lparr>br_bits := br_bits br1 - n\<rparr>"
    have sticky: "br_err br1 \<noteq> 0 \<longrightarrow> r_err (br_r br1) \<noteq> 0"
    proof (cases "r_err (br_r br) = 0")
      case True
      with inv have "br_err br = 0" by (auto simp add: reader_inv_def)
      with t show ?thesis by simp
    next
      case False
      with l' have "br1 = br" by (simp add: read_bits_loop_after_error split: if_splits)
      with inv show ?thesis by (simp add: reader_inv_def)
    qed
    have "reader_inv ?br'" using t inv n sticky by (auto simp add: reader_inv_def)
    moreover have "8 * br_nRead ?br' - br_bits ?br' = 8 * br_nRead br - br_bits br + n"
      using t by simp
    moreover have "br_err ?br' = br_err br" using t by simp
    ultimately show ?thesis using read_bits_exit [OF l' n b] by simp
  qed
qed

lemma read_bits_seq_steps:
  assumes "reader_inv br" "valid_counts ns"
  shows "\<exists>vs br'. read_bits_seq cs br ns = Returns (vs, br') \<and> reader_inv br' \<and>
           (br_err br' = 0 \<longrightarrow> br_err br = 0 \<and>
              8 * br_nRead br' - br_bits br' = 8 * br_nRead br - br_bits br + sum_list ns)"
  using assms
proof (induction ns arbitrary: br)
  case Nil
  then show ?case by simp
next
  case (Cons n ns)
  then have n: "0 \<le> n" "n \<le> 30" by (simp_all add: valid_counts_def)
  from read_bits_step [OF Cons.prems(1) n, of cs]
  obtain v br1 where r: "read_bits cs br n = Returns (v, br1)" and i: "reader_inv br1"
    and c: "br_err br1 = 0 \<longrightarrow> br_err br = 0 \<and>
              8 * br_nRead br1 - br_bits br1 = 8 * br_nRead br - br_bits br + n"
    by blast
  have "valid_counts ns" using Cons.prems by (simp add: valid_counts_def)
  from Cons.IH [OF i this]
  obtain vs br2 where s: "read_bits_seq cs br1 ns = Returns (vs, br2)" and i2: "reader_inv br2"
    and c2: "br_err br2 = 0 \<longrightarrow> br_err br1 = 0 \<and>
              8 * br_nRead br2 - br_bits br2 = 8 * br_nRead br1 - br_bits br1 + sum_list ns"
    by blast
  show ?case using r s i2 c c2 by auto
qed

text \<open>Unfolding the model on a concrete input.\<close>

lemmas eval_defs = read_bits_def read_bits_loop.simps fresh_def new_BitReader_def next_byte_def
  mem_of_def shr_u64_def shl_int_def INT_MAX_def int_to_u64_def read_levelprefix_def
  levelprefix_loop.simps u64_to_int_def zeros_beyond_def mask_eq_exp_minus_1 inc_int_def
  read_bits_reader_def

lemma read_bits_seq_returns:
  assumes "valid_counts ns"
  shows "\<exists>vs br. read_bits_seq cs (new_BitReader d l) ns = Returns (vs, br) \<and> reader_inv br"
  using read_bits_seq_steps [OF reader_inv_new assms, of cs d l] by blast

text \<open>The reader that a call leaves, and the reader of \<open>read_bits\<close> where it returns.\<close>

lemma read_bits_reader_eq:
  "read_bits cs br n = Returns (v, br') \<Longrightarrow> br' = read_bits_reader cs br n"
  by (auto simp add: read_bits_def read_bits_reader_def split: prod.splits bool.splits outcome.splits)

lemma read_bits_seq_readers:
  "read_bits_seq cs br ns = Returns (vs, br') \<Longrightarrow> br' = read_bits_readers cs br ns"
proof (induction ns arbitrary: br vs)
  case Nil
  then show ?case by simp
next
  case (Cons n ns)
  from Cons.prems obtain v br1 vs' where r: "read_bits cs br n = Returns (v, br1)"
    and s: "read_bits_seq cs br1 ns = Returns (vs', br')"
    by (auto split: outcome.splits)
  from Cons.IH [OF s] read_bits_reader_eq [OF r] show ?case by simp
qed

lemma read_bits_reader_err:
  "br_err (read_bits_reader cs br n) = 0 \<Longrightarrow> br_err br = 0"
proof -
  assume a: "br_err (read_bits_reader cs br n) = 0"
  obtain ok br1 where l: "read_bits_loop cs br n = (ok, br1)"
    by (cases "read_bits_loop cs br n")
  show ?thesis
  proof (cases ok)
    case True
    with l a read_bits_loop_True [of cs br n br1] show ?thesis
      by (simp add: read_bits_reader_def)
  next
    case False
    with l a read_bits_loop_False [of cs br n br1] show ?thesis
      by (simp add: read_bits_reader_def)
  qed
qed

lemma read_bits_readers_err:
  "br_err (read_bits_readers cs br ns) = 0 \<Longrightarrow> br_err br = 0"
  by (induction ns arbitrary: br) (auto dest: read_bits_reader_err)

lemma read_bits_reader_step:
  assumes e: "br_err (read_bits_reader cs br n) = 0" and n: "0 \<le> n"
    and b: "0 \<le> br_bits br" "br_bits br \<le> 7"
  shows "0 \<le> br_bits (read_bits_reader cs br n) \<and> br_bits (read_bits_reader cs br n) \<le> 7 \<and>
         8 * br_nRead (read_bits_reader cs br n) - br_bits (read_bits_reader cs br n)
           = 8 * br_nRead br - br_bits br + n"
proof -
  obtain ok br1 where l: "read_bits_loop cs br n = (ok, br1)"
    by (cases "read_bits_loop cs br n")
  have ok: ok
  proof (rule ccontr)
    assume "\<not> ok"
    with l e read_bits_loop_False [of cs br n br1] show False
      by (simp add: read_bits_reader_def)
  qed
  with l have l': "read_bits_loop cs br n = (True, br1)" by simp
  note t = read_bits_loop_True [OF l'] read_bits_loop_True_count [OF l']
  have r: "read_bits_reader cs br n = br1\<lparr>br_bits := br_bits br1 - n\<rparr>"
    using l' by (simp add: read_bits_reader_def)
  show ?thesis unfolding r using t n b by auto
qed

lemma read_bits_readers_steps:
  assumes "br_err (read_bits_readers cs br ns) = 0" "list_all (\<lambda>n. 0 \<le> n) ns"
    "0 \<le> br_bits br" "br_bits br \<le> 7"
  shows "0 \<le> br_bits (read_bits_readers cs br ns) \<and> br_bits (read_bits_readers cs br ns) \<le> 7 \<and>
         8 * br_nRead (read_bits_readers cs br ns) - br_bits (read_bits_readers cs br ns)
           = 8 * br_nRead br - br_bits br + sum_list ns"
  using assms
proof (induction ns arbitrary: br)
  case Nil
  then show ?case by simp
next
  case (Cons n ns)
  have e1: "br_err (read_bits_reader cs br n) = 0"
    using Cons.prems(1) by (auto dest: read_bits_readers_err)
  have n: "0 \<le> n" and ns: "list_all (\<lambda>n. 0 \<le> n) ns" using Cons.prems(2) by simp_all
  note s = read_bits_reader_step [OF e1 n Cons.prems(3,4)]
  have "0 \<le> br_bits (read_bits_readers cs (read_bits_reader cs br n) ns) \<and>
        br_bits (read_bits_readers cs (read_bits_reader cs br n) ns) \<le> 7 \<and>
        8 * br_nRead (read_bits_readers cs (read_bits_reader cs br n) ns)
          - br_bits (read_bits_readers cs (read_bits_reader cs br n) ns)
          = 8 * br_nRead (read_bits_reader cs br n) - br_bits (read_bits_reader cs br n) + sum_list ns"
    by (rule Cons.IH) (use Cons.prems(1) ns s in simp_all)
  with s show ?case by simp
qed

text \<open>
  C8. No over-read. Take any sequence of \<^verbatim>\<open>read_bits\<close> calls on a new reader, with counts
  of at least 1 (the counts 31 and 32 among them; the only bound is that \<open>n + 7\<close> and the
  buffer's length fit \<^verbatim>\<open>int\<close>). If every call was successful (the error flag is clear in
  the reader they leave), then the bits fetched so far (\<open>8 * nRead\<close>) minus the bits consumed
  so far (the sum of the counts) are exactly the reader's \<^verbatim>\<open>bits\<close> field, which lies
  between 0 and 7. Every prefix of a sequence is a sequence, so this holds after each
  successful call.
\<close>

theorem read_bits_no_over_read:
  assumes "counts_fit ns" and "l \<le> INT_MAX"
    and "read_bits_readers cs (new_BitReader d l) ns = br" and "br_err br = 0"
  shows "0 \<le> br_bits br \<and> br_bits br \<le> 7 \<and> 8 * br_nRead br - sum_list ns = br_bits br"
proof -
  have ns: "list_all (\<lambda>n. 0 \<le> n) ns"
    using assms(1) by (simp add: counts_fit_def list_all_iff) force
  have e: "br_err (read_bits_readers cs (new_BitReader d l) ns) = 0" using assms(3,4) by simp
  have "0 \<le> br_bits (new_BitReader d l)" "br_bits (new_BitReader d l) \<le> 7"
    by (simp_all add: new_BitReader_def)
  from read_bits_readers_steps [OF e ns this] assms(3) show ?thesis
    by (simp add: new_BitReader_def)
qed

theorem read_bits_no_over_read_witness:
  "counts_fit [3, 31, 32] \<and> (9 :: int) \<le> INT_MAX \<and>
   br_err (read_bits_readers SignedChar
     (new_BitReader (mem_of [165, 90, 60, 195, 15, 240, 85, 170, 51] zeros_beyond) 9) [3, 31, 32]) = 0 \<and>
   br_bits (read_bits_readers SignedChar
     (new_BitReader (mem_of [165, 90, 60, 195, 15, 240, 85, 170, 51] zeros_beyond) 9) [3, 31, 32]) = 6 \<and>
   br_nRead (read_bits_readers SignedChar
     (new_BitReader (mem_of [165, 90, 60, 195, 15, 240, 85, 170, 51] zeros_beyond) 9) [3, 31, 32]) = 9 \<and>
   8 * br_nRead (read_bits_readers SignedChar
     (new_BitReader (mem_of [165, 90, 60, 195, 15, 240, 85, 170, 51] zeros_beyond) 9) [3, 31, 32])
     - sum_list [3, 31, 32]
     = br_bits (read_bits_readers SignedChar
     (new_BitReader (mem_of [165, 90, 60, 195, 15, 240, 85, 170, 51] zeros_beyond) 9) [3, 31, 32])"
proof -
  have h: "counts_fit [3, 31, 32]" and l: "(9 :: int) \<le> INT_MAX"
    by (simp_all add: counts_fit_def INT_MAX_def)
  have e: "br_err (read_bits_readers SignedChar
     (new_BitReader (mem_of [165, 90, 60, 195, 15, 240, 85, 170, 51] zeros_beyond) 9) [3, 31, 32]) = 0"
    and n: "br_nRead (read_bits_readers SignedChar
     (new_BitReader (mem_of [165, 90, 60, 195, 15, 240, 85, 170, 51] zeros_beyond) 9) [3, 31, 32]) = 9"
    and b: "br_bits (read_bits_readers SignedChar
     (new_BitReader (mem_of [165, 90, 60, 195, 15, 240, 85, 170, 51] zeros_beyond) 9) [3, 31, 32]) = 6"
    by (simp_all add: eval_defs)
  from read_bits_no_over_read [OF h l refl e] h l e n b show ?thesis by blast
qed

text \<open>
  C6, as stated, fails: on the one-byte buffer \<open>[0xFF]\<close>, \<^verbatim>\<open>read_bits(4)\<close> returns 15,
  \<^verbatim>\<open>read_bits(8)\<close> runs out of bytes, sets the error flag and returns 0, and a further
  \<^verbatim>\<open>read_bits(4)\<close> returns 15 again, the four bits still buffered, not the failure
  value 0: \<^verbatim>\<open>read_bits\<close> does not test the flag on entry.
\<close>

theorem read_bits_after_error_returns_bits:
  "map_outcome (\<lambda>(vs, br). (vs, br_err br))
     (read_bits_seq SignedChar (fresh [255] zeros_beyond) [4, 8]) = Returns ([15, 0], 1) \<and>
   map_outcome (\<lambda>(vs, br). (vs, br_err br))
     (read_bits_seq SignedChar (fresh [255] zeros_beyond) [4, 8, 4]) = Returns ([15, 0, 15], 1)"
  by (simp add: eval_defs)

text \<open>
  C6, amended. Once the reader's error flag is set, it stays set after every later
  \<^verbatim>\<open>read_bits\<close> call (counts from 1 to 30). A later call that asks for more bits than
  are buffered (\<open>bits < n\<close>) returns 0 and leaves the accumulator, \<^verbatim>\<open>bits\<close> and
  \<^verbatim>\<open>nRead\<close> as they were. A later call that the buffered bits can serve
  (\<open>n \<le> bits\<close>) still returns those bits and consumes them.
\<close>

theorem read_bits_after_error:
  assumes "valid_counts ns" and "1 \<le> n" "n \<le> 30"
    and "read_bits_seq cs (new_BitReader d l) ns = Returns (vs, br)" and "br_err br \<noteq> 0"
  shows "\<exists>v br'. read_bits cs br n = Returns (v, br') \<and> br_err br' \<noteq> 0 \<and>
           (br_bits br < n \<longrightarrow>
              v = 0 \<and> br_n br' = br_n br \<and> br_bits br' = br_bits br \<and>
              br_nRead br' = br_nRead br) \<and>
           (n \<le> br_bits br \<longrightarrow>
              v = drop_bit (nat (br_bits br - n)) (br_n br) AND mask (nat n) \<and>
              br_bits br' = br_bits br - n)"
proof -
  from read_bits_seq_steps [OF reader_inv_new assms(1), of cs d l] assms(4)
  have i: "reader_inv br" by auto
  then have e: "r_err (br_r br) \<noteq> 0" using assms(5) by (simp add: reader_inv_def)
  show ?thesis
  proof (cases "n \<le> br_bits br")
    case True
    then have l: "read_bits_loop cs br n = (True, br)" by (simp add: read_bits_loop_exit)
    have "br_bits br - n < 64" using i assms(2) by (simp add: reader_inv_def)
    from read_bits_exit [OF l _ assms(3) this] assms(2,5) True show ?thesis by simp
  next
    case False
    then have l: "read_bits_loop cs br n = (False, failed br)"
      using e by (simp add: read_bits_loop_after_error)
    from read_bits_early [OF l] False show ?thesis by (simp add: failed_fields)
  qed
qed

theorem read_bits_after_error_witness:
  "valid_counts [4, 8] \<and> (1::int) \<le> 4 \<and> (4::int) \<le> 30 \<and>
   (\<exists>vs br. read_bits_seq SignedChar (new_BitReader (mem_of [255] zeros_beyond) 1) [4, 8]
        = Returns (vs, br) \<and> br_err br \<noteq> 0 \<and>
      (\<exists>v br'. read_bits SignedChar br 4 = Returns (v, br') \<and> br_err br' \<noteq> 0 \<and>
         (br_bits br < 4 \<longrightarrow>
            v = 0 \<and> br_n br' = br_n br \<and> br_bits br' = br_bits br \<and>
            br_nRead br' = br_nRead br) \<and>
         (4 \<le> br_bits br \<longrightarrow>
            v = drop_bit (nat (br_bits br - 4)) (br_n br) AND mask (nat 4) \<and>
            br_bits br' = br_bits br - 4)))"
proof -
  have h: "valid_counts [4, 8]" by (simp add: valid_counts_def)
  have e: "map_outcome (\<lambda>(vs, br). br_err br)
     (read_bits_seq SignedChar (new_BitReader (mem_of [255] zeros_beyond) 1) [4, 8]) = Returns 1"
    by (simp add: eval_defs)
  then obtain vs br where
    s: "read_bits_seq SignedChar (new_BitReader (mem_of [255] zeros_beyond) 1) [4, 8] = Returns (vs, br)"
    and b: "br_err br \<noteq> 0"
    by (cases "read_bits_seq SignedChar (new_BitReader (mem_of [255] zeros_beyond) 1) [4, 8]") auto
  from read_bits_after_error [OF h _ _ s b, of 4] h s b show ?thesis by simp
qed

section \<open>Where the code leaves the specification\<close>

text \<open>
  C7. The claim (no read of \<^verbatim>\<open>data\<close> at an index outside \<open>0..len-1\<close>) fails on the
  code: on the empty buffer, \<^verbatim>\<open>read_levelprefix\<close> returns \<open>-1\<close> after \<^verbatim>\<open>next_byte\<close>
  has dereferenced \<^verbatim>\<open>data[0]\<close> with \<open>len = 0\<close>. \<^verbatim>\<open>next_byte\<close> tests the bound and sets
  the flag, but does not return before the read.
\<close>

theorem read_levelprefix_reads_past_end:
  "map_outcome (\<lambda>(v, br). (v, r_reads (br_r br), r_len (br_r br)))
     (read_levelprefix cs (fresh [] beyond)) = Returns (- 1, [0], 0)"
  by (simp add: eval_defs)


text \<open>
  C2. The claim fails on the code where plain \<^verbatim>\<open>char\<close> is signed: on the buffer
  \<open>[0x01, 0x80]\<close>, \<^verbatim>\<open>read_bits(16)\<close> on a fresh reader returns \<open>0xFF80 = 65408\<close>, while
  the first 16 bits of the buffer are \<open>0x0180 = 384\<close>: \<^verbatim>\<open>(uint64_t)b\<close> sign-extends the
  byte \<open>0x80\<close> over the bits fetched before it. And for \<open>n = 32\<close>, on every platform,
  \<^verbatim>\<open>1 << 32\<close> on a 32-bit \<^verbatim>\<open>int\<close> is undefined.
\<close>

theorem read_bits_sign_extension:
  "map_outcome fst (read_bits SignedChar (fresh [1, 128] beyond) 16) = Returns 65408 \<and>
   bits_value (take 16 (bitstring [1, 128])) = 384 \<and>
   read_bits cs (fresh [a, b, c, d] beyond) 32 = Undefined"
  by (simp add: eval_defs bitstring_def byte_bits_def upt_conv_Cons)

text \<open>
  C3. The claim fails on the code where plain \<^verbatim>\<open>char\<close> is signed, by the same
  sign extension: on \<open>[0x01, 0x80]\<close>, \<^verbatim>\<open>read_bits(8)\<close> twice returns 1 and 128, while
  \<^verbatim>\<open>read_bits(16)\<close> returns 65408, which splits into 255 and 128.
\<close>

theorem read_bits_split_sign_extension:
  "map_outcome fst (read_bits_seq SignedChar (fresh [1, 128] beyond) [8, 8]) = Returns [1, 128] \<and>
   map_outcome fst (read_bits SignedChar (fresh [1, 128] beyond) 16) = Returns 65408 \<and>
   drop_bit 8 (65408 :: 64 word) = 255 \<and> (65408 :: 64 word) AND 255 = 128"
  by (simp add: eval_defs)

text \<open>
  C5. The claim (once the error flag is set, \<^verbatim>\<open>curr\<close> no longer advances and no further
  byte is fetched) fails on the code: on the empty buffer the first \<^verbatim>\<open>next_byte\<close> call
  fails (the flag is 1 afterwards) and leaves \<^verbatim>\<open>curr\<close> at 1; the second call moves it to 2,
  after reading \<^verbatim>\<open>data[1]\<close>. It is the missing return of C7: the bound is tested and the
  flag set, and the read and the increment follow all the same.
\<close>

theorem next_byte_advances_after_error:
  "r_err (next_bytes (Suc 0) (br_r (fresh [] zeros_beyond))) = 1 \<and>
   r_curr (next_bytes (Suc 0) (br_r (fresh [] zeros_beyond))) = 1 \<and>
   r_curr (next_bytes (Suc (Suc 0)) (br_r (fresh [] zeros_beyond))) = 2 \<and>
   r_reads (next_bytes (Suc (Suc 0)) (br_r (fresh [] zeros_beyond))) = [1, 0] \<and>
   r_len (next_bytes (Suc (Suc 0)) (br_r (fresh [] zeros_beyond))) = 0"
  by (simp add: fresh_def new_BitReader_def next_byte_def)

section \<open>What lies beyond the buffer is never observed\<close>

lemma same_reader_fresh: "same_reader (fresh xs beyond1) (fresh xs beyond2)"
  by (simp add: same_reader_def fresh_def new_BitReader_def mem_of_def)

lemma same_reader_loop:
  "same_reader a b \<Longrightarrow>
   fst (read_bits_loop cs a n) = fst (read_bits_loop cs b n) \<and>
   same_reader (snd (read_bits_loop cs a n)) (snd (read_bits_loop cs b n))"
proof (induction a arbitrary: b rule: read_bits_loop_induct [where n = n and cs = cs])
  case (step a)
  note s = step.prems
  show ?case
  proof (cases "br_bits a < n")
    case False
    with s show ?thesis by (simp add: read_bits_loop_exit same_reader_def)
  next
    case lt: True
    then have ltb: "br_bits b < n" using s by (simp add: same_reader_def)
    have eq: "r_err (snd (next_byte (br_r a))) = r_err (snd (next_byte (br_r b)))"
      using s by (simp add: next_byte_fields same_reader_def)
    show ?thesis
    proof (cases "r_err (snd (next_byte (br_r a))) = 0")
      case False
      then have "r_err (snd (next_byte (br_r b))) \<noteq> 0" using eq by simp
      with False lt ltb s show ?thesis
        by (simp add: read_bits_loop_fail same_reader_def failed_fields next_byte_fields)
    next
      case e: True
      then have eb: "r_err (snd (next_byte (br_r b))) = 0" using eq by simp
      have inb: "r_curr (br_r a) < r_len (br_r a)"
        using e by (simp add: next_byte_fields split: if_splits)
      have "same_reader (fetched cs a) (fetched cs b)"
        using s inb unfolding same_reader_def
        by (simp add: fetched_fields next_byte_fields)
      from step.IH [OF lt e this] show ?thesis
        by (simp add: read_bits_loop_fetch [OF lt e] read_bits_loop_fetch [OF ltb eb])
    qed
  qed
qed

lemma same_reader_read_bits:
  assumes "same_reader a b"
  shows "(read_bits cs a n = Undefined \<and> read_bits cs b n = Undefined) \<or>
         (\<exists>v a' b'. read_bits cs a n = Returns (v, a') \<and> read_bits cs b n = Returns (v, b') \<and>
            same_reader a' b')"
proof -
  obtain ok a1 where la: "read_bits_loop cs a n = (ok, a1)" by (cases "read_bits_loop cs a n")
  obtain ok' b1 where lb: "read_bits_loop cs b n = (ok', b1)" by (cases "read_bits_loop cs b n")
  from same_reader_loop [OF assms, of cs n] la lb
  have ok: "ok' = ok" and s: "same_reader a1 b1" by simp_all
  have upd: "same_reader (a1\<lparr>br_bits := br_bits a1 - n\<rparr>) (b1\<lparr>br_bits := br_bits b1 - n\<rparr>)"
    using s by (simp add: same_reader_def)
  show ?thesis
    using la lb ok s upd
    by (cases ok) (auto simp add: read_bits_def same_reader_def split: outcome.splits)
qed

lemma same_reader_seq:
  "same_reader a b \<Longrightarrow>
   map_outcome (\<lambda>(vs, br). (vs, observable br)) (read_bits_seq cs a ns)
     = map_outcome (\<lambda>(vs, br). (vs, observable br)) (read_bits_seq cs b ns)"
proof (induction ns arbitrary: a b)
  case Nil
  then show ?case by (simp add: observable_def same_reader_def)
next
  case (Cons n ns)
  from same_reader_read_bits [OF Cons.prems, of cs n] show ?case
  proof
    assume "read_bits cs a n = Undefined \<and> read_bits cs b n = Undefined"
    then show ?thesis by simp
  next
    assume "\<exists>v a' b'. read_bits cs a n = Returns (v, a') \<and> read_bits cs b n = Returns (v, b') \<and>
            same_reader a' b'"
    then obtain v a' b' where r: "read_bits cs a n = Returns (v, a')"
      "read_bits cs b n = Returns (v, b')" and s: "same_reader a' b'" by blast
    from Cons.IH [OF s] r show ?thesis
      by (cases "read_bits_seq cs a' ns"; cases "read_bits_seq cs b' ns") auto
  qed
qed

text \<open>
  C10. The byte that \<^verbatim>\<open>next_byte\<close> fetches out of bounds is never observable: for one
  buffer and any two contents of the memory beyond it, every sequence of \<^verbatim>\<open>read_bits\<close>
  calls on a fresh reader gives the same outcome, the same returned values and the same
  \<^verbatim>\<open>err\<close>, \<^verbatim>\<open>n\<close>, \<^verbatim>\<open>bits\<close> and \<^verbatim>\<open>nRead\<close>.
\<close>

theorem read_bits_ignores_memory_beyond:
  "map_outcome (\<lambda>(vs, br). (vs, observable br)) (read_bits_seq cs (fresh xs beyond1) ns)
     = map_outcome (\<lambda>(vs, br). (vs, observable br)) (read_bits_seq cs (fresh xs beyond2) ns)"
  by (rule same_reader_seq [OF same_reader_fresh])

section \<open>Where plain \<^verbatim>\<open>char\<close> is unsigned\<close>

text \<open>
  The defect behind C2 and C3 is the sign extension alone: where plain \<^verbatim>\<open>char\<close> is
  unsigned, and for the counts up to 30 whose mask fits \<^verbatim>\<open>int\<close>, \<^verbatim>\<open>read_bits\<close> returns
  the next bits of the buffer, most significant bit first, and two reads in a row agree
  with one read of both widths.
\<close>

lemma bits_value_snoc: "bits_value (bs @ [b]) = 2 * bits_value bs + of_bool b"
  by (induction bs) simp_all

lemma bit_bits_value: "bit (bits_value bs) i \<longleftrightarrow> i < length bs \<and> bs ! (length bs - 1 - i)"
proof (induction bs arbitrary: i rule: rev_induct)
  case Nil
  then show ?case by simp
next
  case (snoc b bs)
  show ?case
  proof (cases i)
    case 0
    then show ?thesis by (simp add: bits_value_snoc bit_0 nth_append)
  next
    case (Suc j)
    have "(2 * bits_value bs + of_bool b) div 2 = bits_value bs" by simp
    then show ?thesis using snoc.IH [of j] Suc
      by (auto simp add: bits_value_snoc bit_Suc nth_append)
  qed
qed

lemma at_pos_fresh: "at_pos xs beyond 0 (fresh xs beyond)"
  by (simp add: at_pos_def fresh_def new_BitReader_def)

lemma bit_shift_in_unsigned:
  "i < 64 \<Longrightarrow> bit (push_bit 8 a OR (ucast (b :: 8 word) :: 64 word)) i
     = (if i < 8 then bit b i else bit a (i - 8))"
  by (auto simp add: bit_simps dest: bit_imp_le_length)

lemma at_pos_fetched:
  assumes inv: "at_pos xs beyond p br" and lt: "br_bits br < n" and n: "n \<le> 30"
    and enough: "int p + n \<le> 8 * int (length xs)"
  shows "r_err (snd (next_byte (br_r br))) = 0" and "at_pos xs beyond p (fetched UnsignedChar br)"
proof -
  define c where "c = nat (r_curr (br_r br))"
  define k where "k = nat (br_bits br)"
  have cur: "r_curr (br_r br) = int c" and bits: "br_bits br = int k"
    using inv by (auto simp add: at_pos_def c_def k_def)
  have pk: "p + k = 8 * c" using inv cur bits by (simp add: at_pos_def)
  have c: "c < length xs" using inv lt enough cur bits pk by (simp add: at_pos_def)
  show ne: "r_err (snd (next_byte (br_r br))) = 0"
    using inv c cur by (simp add: next_byte_fields at_pos_def)
  have byte: "fst (next_byte (br_r br)) = xs ! c"
    using inv c cur by (simp add: next_byte_fields at_pos_def mem_of_def)
  have k: "k + 8 \<le> 63" using lt n bits by simp
  have old: "\<And>i. i < k \<Longrightarrow> bit (br_n br) i = bitstring xs ! (p + k - 1 - i)"
    using inv bits by (simp add: at_pos_def)
  have new: "bit (br_n (fetched UnsignedChar br)) i = bitstring xs ! (p + (k + 8) - 1 - i)"
    if i: "i < k + 8" for i
  proof (cases "i < 8")
    case True
    have "p + (k + 8) - 1 - i = 8 * c + 7 - i" using pk by simp
    with True c i k show ?thesis
      by (simp add: fetched_fields bit_shift_in_unsigned byte nth_bitstring_byte)
  next
    case False
    then have "i - 8 < k" using i by simp
    from old [OF this] have "bit (br_n br) (i - 8) = bitstring xs ! (p + k - 1 - (i - 8))" .
    moreover have "p + k - 1 - (i - 8) = p + (k + 8) - 1 - i" using False i by simp
    ultimately show ?thesis using False i k
      by (simp add: fetched_fields bit_shift_in_unsigned)
  qed
  have nat8: "nat (int k + 8) = k + 8" by simp
  show "at_pos xs beyond p (fetched UnsignedChar br)"
    unfolding at_pos_def
    using inv c ne new k pk
    by (simp add: fetched_fields next_byte_fields cur bits nat8 at_pos_def)
qed

lemma read_bits_loop_unsigned:
  assumes "at_pos xs beyond p br" "n \<le> 30" "int p + n \<le> 8 * int (length xs)"
  shows "\<exists>br1. read_bits_loop UnsignedChar br n = (True, br1) \<and> at_pos xs beyond p br1"
  using assms(1)
proof (induction br rule: read_bits_loop_induct [where n = n and cs = UnsignedChar])
  case (step br)
  show ?case
  proof (cases "br_bits br < n")
    case False
    with step.prems show ?thesis by (simp add: read_bits_loop_exit)
  next
    case lt: True
    note f = at_pos_fetched [OF step.prems lt assms(2,3)]
    from step.IH [OF lt f] show ?thesis by (simp add: read_bits_loop_fetch [OF lt f(1)])
  qed
qed

lemma read_bits_unsigned:
  assumes inv: "at_pos xs beyond p br" and n: "0 \<le> n" "n \<le> 30"
    and enough: "int p + n \<le> 8 * int (length xs)"
  shows "\<exists>br'. read_bits UnsignedChar br n
            = Returns (of_nat (bits_value (take (nat n) (drop p (bitstring xs)))), br') \<and>
          at_pos xs beyond (p + nat n) br'"
proof -
  from read_bits_loop_unsigned [OF inv n(2) enough]
  obtain br1 where l: "read_bits_loop UnsignedChar br n = (True, br1)"
    and inv1: "at_pos xs beyond p br1" by blast
  define m where "m = nat n"
  define k where "k = nat (br_bits br1)"
  have nm: "n = int m" and bk: "br_bits br1 = int k"
    using n inv1 by (simp_all add: m_def k_def at_pos_def)
  have mk: "m \<le> k" using read_bits_loop_True [OF l] nm bk by simp
  have k64: "k \<le> 63" using inv1 bk by (simp add: at_pos_def)
  have pm: "p + m \<le> length (bitstring xs)" using enough nm by (simp add: length_bitstring)
  have acc: "\<And>i. i < k \<Longrightarrow> bit (br_n br1) i = bitstring xs ! (p + k - 1 - i)"
    using inv1 bk by (simp add: at_pos_def)
  have "br_bits br1 - n < 64" using k64 nm bk mk by linarith
  note r = read_bits_exit [OF l n this]
  have v: "drop_bit (k - m) (br_n br1) AND mask m
             = (of_nat (bits_value (take m (drop p (bitstring xs)))) :: 64 word)"
  proof (rule bit_word_eqI)
    fix i assume "i < LENGTH(64)"
    then have i64: "i < 64" by simp
    show "bit (drop_bit (k - m) (br_n br1) AND mask m) i
            = bit (of_nat (bits_value (take m (drop p (bitstring xs)))) :: 64 word) i"
    proof (cases "i < m")
      case False
      then show ?thesis using i64 by (simp add: bit_simps bit_bits_value)
    next
      case True
      then have "k - m + i < k" using mk by simp
      from acc [OF this] have "bit (br_n br1) (k - m + i) = bitstring xs ! (p + k - 1 - (k - m + i))" .
      moreover have "p + k - 1 - (k - m + i) = p + (m - 1 - i)" using True mk by simp
      ultimately show ?thesis using True i64 pm
        by (simp add: bit_simps bit_bits_value min_absorb2)
    qed
  qed
  have km: "nat (br_bits br1 - n) = k - m" using nm bk by simp
  have "at_pos xs beyond (p + m) (br1\<lparr>br_bits := br_bits br1 - n\<rparr>)"
    unfolding at_pos_def
  proof (intro conjI allI impI)
    fix i assume "i < nat (br_bits (br1\<lparr>br_bits := br_bits br1 - n\<rparr>))"
    then have i: "i < k - m" using km by simp
    then have "i < k" by simp
    from acc [OF this] have "bit (br_n br1) i = bitstring xs ! (p + k - 1 - i)" .
    moreover have "p + m + nat (br_bits (br1\<lparr>br_bits := br_bits br1 - n\<rparr>)) - 1 - i = p + k - 1 - i"
      using km i mk by simp
    ultimately show "bit (br_n (br1\<lparr>br_bits := br_bits br1 - n\<rparr>)) i
        = bitstring xs ! (p + m + nat (br_bits (br1\<lparr>br_bits := br_bits br1 - n\<rparr>)) - 1 - i)"
      by simp
  qed (use inv1 nm bk mk in \<open>simp_all add: at_pos_def\<close>)
  with r v km show ?thesis by (simp add: m_def)
qed

lemma read_bits_unsigned_fresh:
  assumes "1 \<le> n" "n \<le> 30" "n \<le> 8 * int (length xs)"
  shows "map_outcome (\<lambda>(v, br). (v, br_err br)) (read_bits UnsignedChar (fresh xs beyond) n)
           = Returns (of_nat (bits_value (take (nat n) (bitstring xs))), 0)"
proof -
  have n0: "0 \<le> n" "n \<le> 30" "int 0 + n \<le> 8 * int (length xs)" using assms by simp_all
  from read_bits_unsigned [OF at_pos_fresh n0]
  obtain br' where "read_bits UnsignedChar (fresh xs beyond) n
            = Returns (of_nat (bits_value (take (nat n) (drop 0 (bitstring xs)))), br')"
    and "at_pos xs beyond (0 + nat n) br'" by blast
  then show ?thesis by (simp add: at_pos_def)
qed

lemma read_bits_unsigned_split:
  assumes "1 \<le> n" "1 \<le> m" "n + m \<le> 30" "n + m \<le> 8 * int (length xs)"
  shows "\<exists>v. map_outcome fst (read_bits UnsignedChar (fresh xs beyond) (n + m)) = Returns v \<and>
           map_outcome fst (read_bits_seq UnsignedChar (fresh xs beyond) [n, m])
             = Returns [drop_bit (nat m) v, v AND mask (nat m)]"
proof -
  let ?B = "bitstring xs"
  define a where "a = nat n"
  define b where "b = nat m"
  have ab: "n = int a" "m = int b" "nat (n + m) = a + b" using assms by (simp_all add: a_def b_def)
  have len: "a + b \<le> length ?B" using assms ab by (simp add: length_bitstring)
  have n0: "0 \<le> n" "n \<le> 30" "int 0 + n \<le> 8 * int (length xs)" using assms by simp_all
  from read_bits_unsigned [OF at_pos_fresh n0]
  obtain br1 where r1: "read_bits UnsignedChar (fresh xs beyond) n
            = Returns (of_nat (bits_value (take a (drop 0 ?B))), br1)"
    and i1: "at_pos xs beyond (0 + a) br1" unfolding a_def by blast
  have m0: "0 \<le> m" "m \<le> 30" "int (0 + a) + m \<le> 8 * int (length xs)"
    using assms ab by simp_all
  from read_bits_unsigned [OF i1 m0]
  obtain br2 where r2: "read_bits UnsignedChar br1 m
            = Returns (of_nat (bits_value (take b (drop (0 + a) ?B))), br2)"
    unfolding b_def by blast
  have nm0: "0 \<le> n + m" "n + m \<le> 30" "int 0 + (n + m) \<le> 8 * int (length xs)"
    using assms by simp_all
  from read_bits_unsigned [OF at_pos_fresh nm0]
  obtain br3 where r3: "read_bits UnsignedChar (fresh xs beyond) (n + m)
            = Returns (of_nat (bits_value (take (a + b) (drop 0 ?B))), br3)"
    unfolding ab(3) by blast
  let ?v = "of_nat (bits_value (take (a + b) ?B)) :: 64 word"
  have la: "length (take a ?B) = a" and lb: "length (take b (drop a ?B)) = b"
    and lab: "length (take (a + b) ?B) = a + b" using len by simp_all
  have hi: "drop_bit b ?v = of_nat (bits_value (take a ?B))"
  proof (rule bit_word_eqI)
    fix i assume "i < LENGTH(64)"
    then have i64: "i < 64" by simp
    show "bit (drop_bit b ?v) i = bit (of_nat (bits_value (take a ?B)) :: 64 word) i"
    proof (cases "i < a")
      case False
      then show ?thesis using i64 by (auto simp add: bit_simps bit_bits_value lab la)
    next
      case True
      have ab64: "a + b \<le> 30" using assms ab by simp
      have e: "a + b - 1 - (b + i) = a - 1 - i" using True by simp
      show ?thesis using True i64 ab64 len
        by (simp add: bit_simps bit_bits_value e)
    qed
  qed
  have lo: "?v AND mask b = of_nat (bits_value (take b (drop a ?B)))"
  proof (rule bit_word_eqI)
    fix i assume "i < LENGTH(64)"
    then have i64: "i < 64" by simp
    show "bit (?v AND mask b) i = bit (of_nat (bits_value (take b (drop a ?B))) :: 64 word) i"
    proof (cases "i < b")
      case False
      then show ?thesis using i64 by (auto simp add: bit_simps bit_bits_value lab lb)
    next
      case True
      have e: "a + b - 1 - i = a + (b - 1 - i)" using True by simp
      show ?thesis using True i64 len
        by (simp add: bit_simps bit_bits_value e)
    qed
  qed
  show ?thesis using r1 r2 r3 hi lo ab by simp
qed

end
